theory Spec2Isabelle
  imports Main "HOL-Library.Sublist"
begin

section \<open>Domain extraction\<close>

text \<open>
  Both variants (flattener.py lines 12-27, flattener2.py lines 15-30) define the same
  function:
  \<^verbatim>\<open>
  def extract_domain(url):
      pattern = r"https?://(?:www\.)?([^/]+)"
      match = re.search(pattern, url)
      if match:
          return match.group(1)
      else:
          return 'NA'
  \<close>
  A Python string is modelled as a \<open>string\<close>. The pattern only tells ASCII characters
  apart, and no byte of the UTF-8 form of a character beyond ASCII is an ASCII byte, so
  matching the UTF-8 bytes gives the UTF-8 form of what Python matches on code points.

  The regular expression engine is a backtracking matcher. Each piece of the pattern is
  a function from the rest of the subject to the captured group, \<open>None\<close> when the piece
  and everything after it cannot match there.
\<close>

text \<open>A literal piece of the pattern: it consumes exactly these characters.\<close>

fun literal :: "string \<Rightarrow> string \<Rightarrow> string option" where
  "literal [] s = Some s"
| "literal (p # ps) [] = None"
| "literal (p # ps) (c # cs) = (if p = c then literal ps cs else None)"

text \<open>
  \<^verbatim>\<open>([^/]+)\<close>, the last piece: greedy, so the first attempt is the longest run of
  characters other than \<open>/\<close> (a negated class also matches a newline); nothing follows
  it in the pattern, so that attempt succeeds whenever the run is not empty.
\<close>

definition match_group :: "string \<Rightarrow> string option" where
  "match_group s =
     (let g = takeWhile (\<lambda>c. c \<noteq> CHR ''/'') s in if g = [] then None else Some g)"

text \<open>
  \<^verbatim>\<open>(?:www\.)?\<close>: greedy, so \<open>www.\<close> is consumed first when it is there; when the
  group cannot match after it, the engine backtracks and matches the group without
  consuming \<open>www.\<close>.
\<close>

definition match_www :: "string \<Rightarrow> string option" where
  "match_www s =
     (case literal ''www.'' s of
        Some r \<Rightarrow> (case match_group r of Some g \<Rightarrow> Some g | None \<Rightarrow> match_group s)
      | None \<Rightarrow> match_group s)"

definition match_authority :: "string \<Rightarrow> string option" where
  "match_authority s = (case literal ''://'' s of Some r \<Rightarrow> match_www r | None \<Rightarrow> None)"

text \<open>
  \<^verbatim>\<open>https?\<close> and the rest, anchored at the head of \<open>s\<close>: the optional \<open>s\<close> is tried
  first, and without it when the rest of the pattern fails after it.
\<close>

definition match_here :: "string \<Rightarrow> string option" where
  "match_here s =
     (case literal ''http'' s of
        None \<Rightarrow> None
      | Some r \<Rightarrow>
          (case (case literal ''s'' r of Some r' \<Rightarrow> match_authority r' | None \<Rightarrow> None) of
             Some g \<Rightarrow> Some g
           | None \<Rightarrow> match_authority r))"

text \<open>
  \<^verbatim>\<open>re.search\<close>: the pattern is tried at every offset from the left, the end of the
  string included, and the first offset where it matches wins. The result is group 1.
\<close>

fun re_search :: "string \<Rightarrow> string option" where
  "re_search [] = match_here []"
| "re_search (c # cs) =
     (case match_here (c # cs) of Some g \<Rightarrow> Some g | None \<Rightarrow> re_search cs)"

definition extract_domain :: "string \<Rightarrow> string" where
  "extract_domain url = (case re_search url of Some g \<Rightarrow> g | None \<Rightarrow> ''NA'')"

subsection \<open>The specification's reading of the pattern\<close>

text \<open>
  The specification speaks of an occurrence of \<open>http(s)://\<close> followed by at least one
  character other than \<open>/\<close>, and of the host: everything up to the first \<open>/\<close> after
  the authority starts, with an optional \<open>www.\<close> prefix stripped. These definitions
  follow those words; the theorems below compare them with the matcher.
\<close>

definition non_slash_next :: "string \<Rightarrow> bool" where
  "non_slash_next s = (case s of [] \<Rightarrow> False | c # _ \<Rightarrow> c \<noteq> CHR ''/'')"

definition occurrence_at :: "string \<Rightarrow> nat \<Rightarrow> bool" where
  "occurrence_at url i =
     (let s = drop i url in
        (prefix ''http://'' s \<and> non_slash_next (drop 7 s)) \<or>
        (prefix ''https://'' s \<and> non_slash_next (drop 8 s)))"

definition strip_www :: "string \<Rightarrow> string" where
  "strip_www h = (if prefix ''www.'' h \<and> 4 < length h then drop 4 h else h)"

definition host_at :: "string \<Rightarrow> nat \<Rightarrow> string" where
  "host_at url i =
     (let s = drop i url in
        strip_www (takeWhile (\<lambda>c. c \<noteq> CHR ''/'')
          (if prefix ''https://'' s then drop 8 s else drop 7 s)))"

section \<open>Lookups\<close>

text \<open>
  A DNS lookup is the program's only contact with the network. Its outcome for a domain
  is a parameter of the model: the lookup either answers with the first IPv4 address of
  the name or raises. \<open>Gaierror\<close> is \<^verbatim>\<open>socket.gaierror\<close> (name not found and every
  other failure the system resolver reports), \<open>Socket_timeout\<close> is
  \<^verbatim>\<open>socket.timeout\<close>, and \<open>Other_exception\<close> is any other subclass of
  \<^verbatim>\<open>Exception\<close>: \<^verbatim>\<open>socket.gethostbyname\<close> encodes its argument with the idna
  codec before it asks the resolver and raises \<^verbatim>\<open>UnicodeError\<close> for a name with
  an empty label or a label of more than 63 characters, such as \<^verbatim>\<open>a..b\<close>.
\<close>

datatype exn = Gaierror | Socket_timeout | Other_exception

datatype lookup_outcome = Resolved string | Raises exn

type_synonym dns = "string \<Rightarrow> lookup_outcome"

text \<open>
  flattener.py, lines 29-42:
  \<^verbatim>\<open>
  def get_ip(domain):
      try:
          return socket.gethostbyname(domain)
      except (socket.gaierror, socket.timeout):
          return 'NA'
  \<close>
  An exception of any other class leaves the function (\<open>Inl\<close>).
\<close>

definition get_ip :: "dns \<Rightarrow> string \<Rightarrow> exn + string" where
  "get_ip dns d =
     (case dns d of
        Resolved ip \<Rightarrow> Inr ip
      | Raises e \<Rightarrow> (if e = Gaierror \<or> e = Socket_timeout then Inr ''NA'' else Inl e))"

text \<open>
  flattener2.py, lines 32-40:
  \<^verbatim>\<open>
  async def get_ip_async(domain):
      try:
          result = await resolver.gethostbyname(domain, socket.AF_INET)
          return result.addresses[0]
      except Exception:
          return 'NA'
  \<close>
  Every exception is caught, so the coroutine always returns a string.
\<close>

definition get_ip_async :: "dns \<Rightarrow> string \<Rightarrow> string" where
  "get_ip_async dns d = (case dns d of Resolved ip \<Rightarrow> ip | Raises e \<Rightarrow> ''NA'')"

section \<open>Data frames\<close>

text \<open>
  A data frame is the list of its rows, in row order; duplicates are kept. A row has the
  column \<open>infringing_urls\<close>, a string, and whatever else the flattening produced
  (\<open>other_columns\<close>, none of them named \<open>domain\<close> or \<open>ipaddress\<close>). The index is
  not modelled: \<^verbatim>\<open>reset_index(drop=True)\<close> throws the
  old one away and \<^verbatim>\<open>merge\<close> numbers its result afresh.
\<close>

record 'a row =
  other_columns :: 'a
  infringing_urls :: string

record 'a row_domain = "'a row" +
  domain :: string

text \<open>
  After the merge the column \<open>ipaddress\<close> may hold NaN (\<open>None\<close>); after
  \<^verbatim>\<open>fillna\<close> it holds strings only.
\<close>

record ('a, 'v) row_ip = "'a row_domain" +
  ipaddress :: 'v

text \<open>\<^verbatim>\<open>df['domain'] = df['infringing_urls'].swifter.apply(extract_domain)\<close>\<close>

definition apply_extract_domain :: "'a row list \<Rightarrow> 'a row_domain list" where
  "apply_extract_domain df =
     map (\<lambda>r. \<lparr>other_columns = other_columns r, infringing_urls = infringing_urls r,
               domain = extract_domain (infringing_urls r)\<rparr>) df"

text \<open>\<^verbatim>\<open>df = df[df['domain'] != 'NA']\<close>: boolean indexing keeps the rows where the mask
  holds, in order.\<close>

definition drop_na :: "'a row_domain list \<Rightarrow> 'a row_domain list" where
  "drop_na df = filter (\<lambda>r. domain r \<noteq> ''NA'') df"

text \<open>\<^verbatim>\<open>Series.unique()\<close>: the distinct values in order of first appearance; \<open>seen\<close> is
  the hash table of the values met so far.\<close>

fun unique_from :: "string list \<Rightarrow> string list \<Rightarrow> string list" where
  "unique_from seen [] = []"
| "unique_from seen (x # xs) =
     (if x \<in> set seen then unique_from seen xs else x # unique_from (x # seen) xs)"

definition unique :: "string list \<Rightarrow> string list" where
  "unique xs = unique_from [] xs"

text \<open>
  \<^verbatim>\<open>df.merge(unique_domains, how='left', on='domain')\<close>: for every row of the left
  frame, in order, one output row per row of the right frame with the same key, and one
  row with NaN when there is none. The right frame is the list of its
  (domain, ipaddress) rows.
\<close>

definition with_ip :: "'a row_domain \<Rightarrow> 'v \<Rightarrow> ('a, 'v) row_ip" where
  "with_ip r v = \<lparr>other_columns = other_columns r, infringing_urls = infringing_urls r,
                   domain = domain r, ipaddress = v\<rparr>"

definition merge_left ::
  "'a row_domain list \<Rightarrow> (string \<times> string) list \<Rightarrow> ('a, string option) row_ip list" where
  "merge_left df right =
     concat (map (\<lambda>r. case filter (\<lambda>kv. fst kv = domain r) right of
                         [] \<Rightarrow> [with_ip r None]
                       | ms \<Rightarrow> map (\<lambda>kv. with_ip r (Some (snd kv))) ms) df)"

text \<open>\<^verbatim>\<open>df['ipaddress'] = df['ipaddress'].fillna('NA')\<close>\<close>

definition fillna :: "('a, string option) row_ip list \<Rightarrow> ('a, string) row_ip list" where
  "fillna df =
     map (\<lambda>r. \<lparr>other_columns = other_columns r, infringing_urls = infringing_urls r,
               domain = domain r,
               ipaddress = (case ipaddress r of None \<Rightarrow> ''NA'' | Some v \<Rightarrow> v)\<rparr>) df"

section \<open>The thread-pool variant (flattener.py)\<close>

text \<open>
  \<^verbatim>\<open>list(executor.map(get_ip, unique_domains['domain']))\<close>: every domain is submitted;
  the results are read in the order of the domains, and the first one whose call raised
  raises again here, out of the \<^verbatim>\<open>with\<close> block and out of the function.
\<close>

fun executor_map_get_ip :: "dns \<Rightarrow> string list \<Rightarrow> exn + string list" where
  "executor_map_get_ip dns [] = Inr []"
| "executor_map_get_ip dns (d # ds) =
     (case get_ip dns d of
        Inl e \<Rightarrow> Inl e
      | Inr ip \<Rightarrow>
          (case executor_map_get_ip dns ds of
             Inl e \<Rightarrow> Inl e
           | Inr ips \<Rightarrow> Inr (ip # ips)))"

text \<open>
  What leaves \<^verbatim>\<open>parallelize_domain_ip\<close> instead of a frame:
  \<^verbatim>\<open>ThreadPoolExecutor(max_workers=num_workers)\<close> raises \<^verbatim>\<open>ValueError\<close> unless
  \<open>num_workers\<close> is positive, and a lookup may raise what \<open>get_ip\<close> does not catch.
\<close>

datatype error = Max_workers_not_positive | Lookup_raised exn

text \<open>
  flattener.py, lines 44-91 (the prints and the timing left out):
  \<^verbatim>\<open>
  def parallelize_domain_ip(df, num_workers=100):
      df = df.reset_index(drop=True)
      df['domain'] = df['infringing_urls'].swifter.apply(extract_domain)
      df = df[df['domain'] != 'NA']
      unique_domains = pd.DataFrame(df['domain'].unique(), columns=['domain'])
      with ThreadPoolExecutor(max_workers=num_workers) as executor:
          unique_domains['ipaddress'] = list(executor.map(get_ip, unique_domains['domain']))
      df = df.merge(unique_domains, how='left', on='domain')
      df['ipaddress'] = df['ipaddress'].fillna('NA')
      return df
  \<close>
\<close>

definition parallelize_domain_ip ::
  "dns \<Rightarrow> int \<Rightarrow> 'a row list \<Rightarrow> error + ('a, string) row_ip list" where
  "parallelize_domain_ip dns num_workers df0 =
     (let df = drop_na (apply_extract_domain df0);
          unique_domains = unique (map domain df)
      in if num_workers \<le> 0 then Inl Max_workers_not_positive
         else (case executor_map_get_ip dns unique_domains of
                 Inl e \<Rightarrow> Inl (Lookup_raised e)
               | Inr ips \<Rightarrow> Inr (fillna (merge_left df (zip unique_domains ips)))))"

definition default_num_workers :: int where
  "default_num_workers = 100"

section \<open>The async-resolver variant (flattener2.py)\<close>

text \<open>
  flattener2.py, lines 42-53 and 55-69:
  \<^verbatim>\<open>
  async def resolve_ips_async(unique_domains):
      tasks = [get_ip_async(domain) for domain in unique_domains['domain']]
      unique_domains['ipaddress'] = await asyncio.gather(*tasks)
      return unique_domains

  def parallelize_domain_ip(df):
      df = df.reset_index(drop=True)
      df['domain'] = df['infringing_urls'].swifter.apply(extract_domain)
      df = df[df['domain'] != 'NA']
      unique_domains = pd.DataFrame(df['domain'].unique(), columns=['domain'])
      loop = asyncio.get_event_loop()
      unique_domains = loop.run_until_complete(resolve_ips_async(unique_domains))
      df = df.merge(unique_domains, how='left', on='domain')
      df['ipaddress'] = df['ipaddress'].fillna('NA')
      return df
  \<close>
  \<^verbatim>\<open>asyncio.gather\<close> returns the results in the order of the tasks. The function has
  the name of the thread-pool one in the source; here it carries the suffix \<open>2\<close> of its
  file.
\<close>

definition resolve_ips_async :: "dns \<Rightarrow> string list \<Rightarrow> (string \<times> string) list" where
  "resolve_ips_async dns unique_domains = zip unique_domains (map (get_ip_async dns) unique_domains)"

definition parallelize_domain_ip2 :: "dns \<Rightarrow> 'a row list \<Rightarrow> ('a, string) row_ip list" where
  "parallelize_domain_ip2 dns df0 =
     (let df = drop_na (apply_extract_domain df0);
          unique_domains = unique (map domain df)
      in fillna (merge_left df (resolve_ips_async dns unique_domains)))"

section \<open>Auxiliary notions of the statements\<close>

text \<open>
  Executable forms of "some occurrence exists" and "the first occurrence is at offset
  \<open>i\<close>"; an occurrence needs a character after \<open>://\<close>, so it starts before the end.
\<close>

definition pattern_occurs :: "string \<Rightarrow> bool" where
  "pattern_occurs url = list_ex (occurrence_at url) [0..<length url]"

definition first_occurrence :: "string \<Rightarrow> nat \<Rightarrow> bool" where
  "first_occurrence url i =
     (occurrence_at url i \<and> list_all (\<lambda>j. \<not> occurrence_at url j) [0..<i])"

text \<open>
  The list of domains both variants hand to the resolver: the value of
  \<^verbatim>\<open>unique_domains['domain']\<close> for the input frame \<open>df0\<close>.
\<close>

definition unique_domains_of :: "'a row list \<Rightarrow> string list" where
  "unique_domains_of df0 = unique (map domain (drop_na (apply_extract_domain df0)))"

text \<open>The columns a row had before the enrichment.\<close>

definition original_columns :: "('a, 'v) row_ip \<Rightarrow> 'a row" where
  "original_columns e = \<lparr>other_columns = other_columns e, infringing_urls = infringing_urls e\<rparr>"

text \<open>Whether the extraction finds a domain in the row's URL.\<close>

definition has_domain :: "'a row \<Rightarrow> bool" where
  "has_domain r = (extract_domain (infringing_urls r) \<noteq> ''NA'')"

text \<open>
  The join of lines 84-87 (flattener.py) and 66-67 (flattener2.py): the left merge
  followed by \<^verbatim>\<open>fillna\<close>.
\<close>

definition join :: "'a row_domain list \<Rightarrow> (string \<times> string) list \<Rightarrow> ('a, string) row_ip list" where
  "join df right = fillna (merge_left df right)"

text \<open>The IP a row gets from a mapping: the record's value, \<open>NA\<close> when there is none.\<close>

definition ip_for :: "(string \<times> string) list \<Rightarrow> string \<Rightarrow> string" where
  "ip_for right d = (case map_of right d of Some ip \<Rightarrow> ip | None \<Rightarrow> ''NA'')"

text \<open>Concrete inputs: the scenario of the specification and a name the idna codec
  refuses.\<close>

definition a_test_dns :: dns where
  "a_test_dns d = (if d = ''a.test'' then Resolved ''1.2.3.4'' else Raises Gaierror)"

definition scenario_rows :: "unit row list" where
  "scenario_rows =
     [\<lparr>other_columns = (), infringing_urls = ''https://a.test/1''\<rparr>,
      \<lparr>other_columns = (), infringing_urls = ''bad''\<rparr>,
      \<lparr>other_columns = (), infringing_urls = ''https://a.test/2''\<rparr>]"

definition idna_dns :: dns where
  "idna_dns d = (if d = ''a..b'' then Raises Other_exception else Raises Gaierror)"

definition idna_rows :: "unit row list" where
  "idna_rows = [\<lparr>other_columns = (), infringing_urls = ''http://a..b/x''\<rparr>]"

section \<open>Facts about the matcher\<close>

lemma literal_append: "literal p (p @ s) = Some s"
  by (induction p) simp_all

lemma literal_Some_iff: "literal p s = Some r \<longleftrightarrow> s = p @ r"
proof (induction p s rule: literal.induct)
  case (1 s)
  show ?case by auto
next
  case (2 p ps)
  show ?case by simp
next
  case (3 p ps c cs)
  then show ?case by auto
qed

lemma literal_None_iff: "literal p s = None \<longleftrightarrow> \<not> prefix p s"
proof (induction p s rule: literal.induct)
  case (1 s)
  show ?case by simp
next
  case (2 p ps)
  show ?case by simp
next
  case (3 p ps c cs)
  then show ?case by simp
qed

lemma match_group_eq:
  "match_group s = (if non_slash_next s then Some (takeWhile (\<lambda>c. c \<noteq> CHR ''/'') s) else None)"
  by (cases s) (simp_all add: match_group_def non_slash_next_def)

lemma match_www_eq:
  "match_www s =
     (if non_slash_next s then Some (strip_www (takeWhile (\<lambda>c. c \<noteq> CHR ''/'') s)) else None)"
proof (cases "literal ''www.'' s")
  case None
  then have np: "\<not> prefix ''www.'' s"
    by (simp add: literal_None_iff)
  have "\<not> prefix ''www.'' (takeWhile (\<lambda>c. c \<noteq> CHR ''/'') s)"
    using np takeWhile_is_prefix prefix_order.trans by blast
  then show ?thesis
    using None by (simp add: match_www_def match_group_eq strip_www_def)
next
  case (Some r)
  then have s: "s = ''www.'' @ r"
    by (simp add: literal_Some_iff)
  show ?thesis
    using Some unfolding s
    by (cases r) (simp_all add: match_www_def match_group_eq strip_www_def non_slash_next_def)
qed

lemma match_here_http: "match_here (''http://'' @ a) = match_www a"
  by (simp add: match_here_def match_authority_def)

lemma match_here_https: "match_here (''https://'' @ a) = match_www a"
  by (simp add: match_here_def match_authority_def split: option.splits)

lemma match_here_Some:
  assumes "match_here s = Some g"
  shows "\<exists>a. (s = ''http://'' @ a \<or> s = ''https://'' @ a) \<and> match_www a = Some g"
proof -
  from assms obtain r where r: "s = ''http'' @ r"
    by (auto simp: match_here_def literal_Some_iff split: option.splits)
  from assms r have "match_authority r = Some g \<or>
      (\<exists>r'. r = ''s'' @ r' \<and> match_authority r' = Some g)"
    by (auto simp: match_here_def literal_append literal_Some_iff
        simp del: append.simps split: option.splits)
  then show ?thesis
  proof
    assume "match_authority r = Some g"
    then obtain a where "r = ''://'' @ a" "match_www a = Some g"
      by (auto simp: match_authority_def literal_Some_iff split: option.splits)
    with r show ?thesis by auto
  next
    assume "\<exists>r'. r = ''s'' @ r' \<and> match_authority r' = Some g"
    then obtain r' where r': "r = ''s'' @ r'" "match_authority r' = Some g"
      by blast
    then obtain a where "r' = ''://'' @ a" "match_www a = Some g"
      by (auto simp: match_authority_def literal_Some_iff split: option.splits)
    with r r' show ?thesis by auto
  qed
qed

lemma occurrence_at_0:
  "occurrence_at s 0 \<longleftrightarrow>
     (\<exists>a. (s = ''http://'' @ a \<or> s = ''https://'' @ a) \<and> non_slash_next a)"
  by (auto simp: occurrence_at_def prefix_def simp del: append.simps) auto

lemma match_here_eq:
  "match_here s = (if occurrence_at s 0 then Some (host_at s 0) else None)"
proof (cases "occurrence_at s 0")
  case True
  then obtain a where a: "s = ''http://'' @ a \<or> s = ''https://'' @ a" "non_slash_next a"
    by (auto simp: occurrence_at_0)
  from a(1) show ?thesis
  proof
    assume "s = ''http://'' @ a"
    then show ?thesis
      using True a(2) by (simp add: match_here_http match_www_eq host_at_def del: append.simps) simp
  next
    assume "s = ''https://'' @ a"
    then show ?thesis
      using True a(2) by (simp add: match_here_https match_www_eq host_at_def del: append.simps) simp
  qed
next
  case False
  have "match_here s = None"
  proof (rule ccontr)
    assume "match_here s \<noteq> None"
    then obtain g where "match_here s = Some g" by auto
    from match_here_Some [OF this] obtain a
      where a: "s = ''http://'' @ a \<or> s = ''https://'' @ a" "match_www a = Some g"
      by blast
    from a(2) have "non_slash_next a"
      by (simp add: match_www_eq split: if_splits)
    with a(1) False show False
      by (auto simp: occurrence_at_0)
  qed
  with False show ?thesis by simp
qed

lemma occurrence_at_Suc: "occurrence_at (c # cs) (Suc i) = occurrence_at cs i"
  by (simp add: occurrence_at_def)

lemma host_at_Suc: "host_at (c # cs) (Suc i) = host_at cs i"
  by (simp add: host_at_def)

lemma occurrence_at_length: "occurrence_at url i \<Longrightarrow> i < length url"
  by (cases "i < length url") (simp_all add: occurrence_at_def)

lemma re_search_first:
  "occurrence_at url i \<Longrightarrow> (\<And>j. j < i \<Longrightarrow> \<not> occurrence_at url j) \<Longrightarrow>
   re_search url = Some (host_at url i)"
proof (induction url arbitrary: i)
  case Nil
  then show ?case
    using occurrence_at_length by fastforce
next
  case (Cons c cs)
  show ?case
  proof (cases i)
    case 0
    with Cons.prems(1) show ?thesis
      by (simp add: match_here_eq)
  next
    case (Suc k)
    with Cons.prems(2) [of 0] have no0: "\<not> occurrence_at (c # cs) 0"
      by simp
    have occ: "occurrence_at cs k"
      using Cons.prems(1) Suc by (simp add: occurrence_at_Suc)
    have "\<And>j. j < k \<Longrightarrow> \<not> occurrence_at cs j"
      using Cons.prems(2) Suc occurrence_at_Suc by (metis Suc_less_eq)
    from Cons.IH [OF occ this] show ?thesis
      using no0 Suc by (simp add: match_here_eq host_at_Suc)
  qed
qed

lemma re_search_None_iff: "re_search url = None \<longleftrightarrow> (\<forall>i. \<not> occurrence_at url i)"
proof (induction url)
  case Nil
  show ?case
    using occurrence_at_length by (fastforce simp: match_here_eq)
next
  case (Cons c cs)
  have "(\<forall>i. \<not> occurrence_at (c # cs) i) \<longleftrightarrow>
        \<not> occurrence_at (c # cs) 0 \<and> (\<forall>i. \<not> occurrence_at cs i)"
    by (metis occurrence_at_Suc old.nat.exhaust)
  with Cons show ?case
    by (simp add: match_here_eq)
qed

lemma pattern_occurs_iff: "pattern_occurs url \<longleftrightarrow> (\<exists>i. occurrence_at url i)"
  using occurrence_at_length by (auto simp: pattern_occurs_def list_ex_iff)

lemma first_occurrence_iff:
  "first_occurrence url i \<longleftrightarrow> occurrence_at url i \<and> (\<forall>j<i. \<not> occurrence_at url j)"
  by (simp add: first_occurrence_def list_all_iff Ball_def)

lemma first_occurrence_exists:
  assumes "pattern_occurs url"
  shows "\<exists>i. first_occurrence url i"
proof -
  define m where "m = (LEAST k. occurrence_at url k)"
  from assms obtain k where "occurrence_at url k"
    unfolding pattern_occurs_iff by blast
  then have "occurrence_at url m"
    unfolding m_def by (rule LeastI)
  moreover have "\<not> occurrence_at url j" if "j < m" for j
    using that unfolding m_def by (rule not_less_Least)
  ultimately have "first_occurrence url m"
    unfolding first_occurrence_iff by blast
  then show ?thesis ..
qed

lemma extract_domain_first:
  assumes "first_occurrence url i"
  shows "extract_domain url = host_at url i"
proof -
  from assms have "occurrence_at url i" and "\<And>j. j < i \<Longrightarrow> \<not> occurrence_at url j"
    by (simp_all add: first_occurrence_iff)
  then have "re_search url = Some (host_at url i)"
    by (rule re_search_first)
  then show ?thesis
    by (simp add: extract_domain_def)
qed

lemma re_search_None_occurs: "re_search url = None \<longleftrightarrow> \<not> pattern_occurs url"
  by (simp add: re_search_None_iff pattern_occurs_iff)

lemma extract_domain_none: "\<not> pattern_occurs url \<Longrightarrow> extract_domain url = ''NA''"
  by (simp add: extract_domain_def re_search_None_occurs [symmetric])

lemma takeWhile_host:
  "CHR ''/'' \<notin> set h \<Longrightarrow> takeWhile (\<lambda>c. c \<noteq> CHR ''/'') (h @ CHR ''/'' # rest) = h"
  by (induction h) auto

lemma non_slash_next_host:
  "h \<noteq> [] \<Longrightarrow> CHR ''/'' \<notin> set h \<Longrightarrow> non_slash_next (h @ t)"
  by (cases h) (auto simp: non_slash_next_def)

lemma re_search_at_head: "match_here s = Some g \<Longrightarrow> re_search s = Some g"
  by (cases s) simp_all

lemma extract_domain_scheme:
  assumes "scheme = ''http'' \<or> scheme = ''https''" and "h \<noteq> []" and "CHR ''/'' \<notin> set h"
  shows "extract_domain (scheme @ ''://'' @ h @ ''/'' @ rest) = strip_www h"
proof -
  have m: "match_www (h @ CHR ''/'' # rest) = Some (strip_www h)"
    using assms(2,3) by (simp add: match_www_eq takeWhile_host non_slash_next_host)
  from assms(1) have "match_here (scheme @ ''://'' @ h @ ''/'' @ rest) = Some (strip_www h)"
  proof
    assume "scheme = ''http''"
    then show ?thesis
      using match_here_http [of "h @ CHR ''/'' # rest"] m by simp
  next
    assume "scheme = ''https''"
    then show ?thesis
      using match_here_https [of "h @ CHR ''/'' # rest"] m by simp
  qed
  then show ?thesis
    by (simp add: extract_domain_def re_search_at_head)
qed

lemma strip_www_prefixed: "h \<noteq> [] \<Longrightarrow> strip_www (''www.'' @ h) = h"
  by (simp add: strip_www_def)

lemma strip_www_plain: "\<not> prefix ''www.'' h \<Longrightarrow> strip_www h = h"
  by (simp add: strip_www_def)

section \<open>Facts about the frames\<close>

lemma set_unique_from: "set (unique_from seen xs) = set xs - set seen"
  by (induction xs arbitrary: seen) auto

lemma distinct_unique_from: "distinct (unique_from seen xs)"
  by (induction xs arbitrary: seen) (simp_all add: set_unique_from)

lemma set_unique: "set (unique xs) = set xs"
  by (simp add: unique_def set_unique_from)

lemma distinct_unique: "distinct (unique xs)"
  by (simp add: unique_def distinct_unique_from)


lemma filter_key_absent: "k \<notin> fst ` set right \<Longrightarrow> filter (\<lambda>kv. fst kv = k) right = []"
  by (induction right) auto

lemma filter_key_distinct:
  "distinct (map fst right) \<Longrightarrow>
   filter (\<lambda>kv. fst kv = k) right = (case map_of right k of None \<Rightarrow> [] | Some v \<Rightarrow> [(k, v)])"
proof (induction right)
  case Nil
  show ?case by simp
next
  case (Cons a right)
  show ?case
  proof (cases "fst a = k")
    case True
    with Cons.prems have "k \<notin> fst ` set right"
      by auto
    then have "filter (\<lambda>kv. fst kv = k) right = []"
      by (rule filter_key_absent)
    with True show ?thesis
      by (cases a) simp
  next
    case False
    with Cons show ?thesis
      by (cases a) simp
  qed
qed

lemma merge_left_distinct:
  assumes "distinct (map fst right)"
  shows "merge_left df right = map (\<lambda>r. with_ip r (map_of right (domain r))) df"
proof -
  have "(case filter (\<lambda>kv. fst kv = domain r) right of
           [] \<Rightarrow> [with_ip r None]
         | ms \<Rightarrow> map (\<lambda>kv. with_ip r (Some (snd kv))) ms) = [with_ip r (map_of right (domain r))]"
    for r :: "'a row_domain"
    by (simp add: filter_key_distinct [OF assms] split: option.splits)
  then show ?thesis
    by (simp add: merge_left_def concat_map_singleton)
qed

lemma fillna_with_ip:
  "fillna (map (\<lambda>r. with_ip r (f r)) df) =
   map (\<lambda>r. with_ip r (case f r of None \<Rightarrow> ''NA'' | Some v \<Rightarrow> v)) df"
  by (simp add: fillna_def with_ip_def)

lemma join_distinct:
  "distinct (map fst right) \<Longrightarrow> join df right = map (\<lambda>r. with_ip r (ip_for right (domain r))) df"
  by (simp add: join_def merge_left_distinct fillna_with_ip ip_for_def)

lemma ip_for_zip_map: "d \<in> set ds \<Longrightarrow> ip_for (zip ds (map f ds)) d = f d"
  by (simp add: ip_for_def map_of_zip_map)

lemma map_fst_resolve_ips_async: "map fst (resolve_ips_async dns ds) = ds"
  by (simp add: resolve_ips_async_def)

lemma domain_apply_extract_domain:
  "map domain (apply_extract_domain df0) = map (\<lambda>r. extract_domain (infringing_urls r)) df0"
  by (simp add: apply_extract_domain_def)

lemma domain_drop_na:
  "map domain (drop_na (apply_extract_domain df0)) =
   filter (\<lambda>d. d \<noteq> ''NA'') (map (\<lambda>r. extract_domain (infringing_urls r)) df0)"
  by (induction df0) (simp_all add: drop_na_def apply_extract_domain_def)

lemma set_unique_domains_of:
  "set (unique_domains_of df0) = {d \<in> extract_domain ` infringing_urls ` set df0. d \<noteq> ''NA''}"
  by (auto simp: unique_domains_of_def set_unique domain_drop_na)

lemma distinct_unique_domains_of: "distinct (unique_domains_of df0)"
  by (simp add: unique_domains_of_def distinct_unique)

lemma domain_in_unique_domains_of:
  "r \<in> set (drop_na (apply_extract_domain df0)) \<Longrightarrow> domain r \<in> set (unique_domains_of df0)"
  by (simp add: unique_domains_of_def set_unique)

lemma original_columns_with_ip:
  "original_columns (with_ip r v) = \<lparr>other_columns = other_columns r, infringing_urls = infringing_urls r\<rparr>"
  by (simp add: original_columns_def with_ip_def)

lemma original_columns_frame:
  "map (\<lambda>r. original_columns (with_ip r (f r))) (drop_na (apply_extract_domain df0)) =
   filter has_domain df0"
  by (induction df0)
    (simp_all add: drop_na_def apply_extract_domain_def has_domain_def original_columns_with_ip)

lemma parallelize_domain_ip2_join:
  "parallelize_domain_ip2 dns df0 =
   join (drop_na (apply_extract_domain df0)) (resolve_ips_async dns (unique_domains_of df0))"
  by (simp add: parallelize_domain_ip2_def join_def unique_domains_of_def Let_def)

lemma parallelize_domain_ip_join:
  "parallelize_domain_ip dns n df0 =
   (if n \<le> 0 then Inl Max_workers_not_positive
    else case executor_map_get_ip dns (unique_domains_of df0) of
           Inl e \<Rightarrow> Inl (Lookup_raised e)
         | Inr ips \<Rightarrow>
             Inr (join (drop_na (apply_extract_domain df0)) (zip (unique_domains_of df0) ips)))"
  by (simp add: parallelize_domain_ip_def join_def unique_domains_of_def Let_def split: sum.splits)

lemma parallelize_domain_ip2_rows:
  "parallelize_domain_ip2 dns df0 =
   map (\<lambda>r. with_ip r (get_ip_async dns (domain r))) (drop_na (apply_extract_domain df0))"
proof -
  let ?ds = "unique_domains_of df0"
  have "distinct (map fst (resolve_ips_async dns ?ds))"
    by (simp add: map_fst_resolve_ips_async distinct_unique_domains_of)
  then have "parallelize_domain_ip2 dns df0 =
      map (\<lambda>r. with_ip r (ip_for (resolve_ips_async dns ?ds) (domain r)))
        (drop_na (apply_extract_domain df0))"
    by (simp add: parallelize_domain_ip2_join join_distinct)
  also have "\<dots> = map (\<lambda>r. with_ip r (get_ip_async dns (domain r))) (drop_na (apply_extract_domain df0))"
    by (rule map_cong) (simp_all add: resolve_ips_async_def ip_for_zip_map domain_in_unique_domains_of)
  finally show ?thesis .
qed

lemma get_ip_caught: "dns d \<noteq> Raises Other_exception \<Longrightarrow> get_ip dns d = Inr (get_ip_async dns d)"
  by (cases "dns d") (auto simp: get_ip_def get_ip_async_def intro: exn.exhaust)

lemma get_ip_Inr: "get_ip dns d = Inr ip \<Longrightarrow> dns d \<noteq> Raises Other_exception \<and> ip = get_ip_async dns d"
  by (cases "dns d") (auto simp: get_ip_def get_ip_async_def split: if_splits)

lemma get_ip_Inl: "get_ip dns d = Inl e \<Longrightarrow> e = Other_exception \<and> dns d = Raises Other_exception"
  by (cases "dns d"; cases e) (auto simp: get_ip_def split: if_splits)

lemma executor_map_get_ip_caught:
  "(\<And>d. d \<in> set ds \<Longrightarrow> dns d \<noteq> Raises Other_exception) \<Longrightarrow>
   executor_map_get_ip dns ds = Inr (map (get_ip_async dns) ds)"
  by (induction ds) (simp_all add: get_ip_caught)

lemma executor_map_get_ip_Inr:
  "executor_map_get_ip dns ds = Inr ips \<Longrightarrow>
   (\<forall>d\<in>set ds. dns d \<noteq> Raises Other_exception) \<and> ips = map (get_ip_async dns) ds"
proof (induction ds arbitrary: ips)
  case Nil
  then show ?case by simp
next
  case (Cons d ds)
  from Cons.prems obtain ip ips' where ip: "get_ip dns d = Inr ip"
    and rest: "executor_map_get_ip dns ds = Inr ips'" and ips: "ips = ip # ips'"
    by (auto split: sum.splits)
  from get_ip_Inr [OF ip] Cons.IH [OF rest] ips show ?case
    by simp
qed

lemma executor_map_get_ip_Inl:
  "executor_map_get_ip dns ds = Inl e \<Longrightarrow>
   e = Other_exception \<and> (\<exists>d\<in>set ds. dns d = Raises Other_exception)"
proof (induction ds)
  case Nil
  then show ?case by simp
next
  case (Cons d ds)
  show ?case
  proof (cases "get_ip dns d")
    case (Inl e')
    with Cons.prems have "e' = e" by simp
    with get_ip_Inl [OF Inl] show ?thesis by simp
  next
    case (Inr ip)
    with Cons.prems have "executor_map_get_ip dns ds = Inl e"
      by (simp split: sum.splits)
    from Cons.IH [OF this] show ?thesis by simp
  qed
qed

lemma parallelize_domain_ip_caught:
  assumes "0 < n" and "\<And>d. d \<in> set (unique_domains_of df0) \<Longrightarrow> dns d \<noteq> Raises Other_exception"
  shows "parallelize_domain_ip dns n df0 = Inr (parallelize_domain_ip2 dns df0)"
proof -
  have "executor_map_get_ip dns (unique_domains_of df0) =
      Inr (map (get_ip_async dns) (unique_domains_of df0))"
    using assms(2) by (rule executor_map_get_ip_caught)
  with assms(1) show ?thesis
    by (simp add: parallelize_domain_ip_join parallelize_domain_ip2_join resolve_ips_async_def)
qed

lemma parallelize_domain_ip_Inr:
  assumes "parallelize_domain_ip dns n df0 = Inr out"
  shows "out = parallelize_domain_ip2 dns df0"
proof -
  from assms have n: "0 < n"
    by (simp add: parallelize_domain_ip_join split: if_splits)
  with assms obtain ips where ips: "executor_map_get_ip dns (unique_domains_of df0) = Inr ips"
    by (auto simp: parallelize_domain_ip_join split: sum.splits)
  from executor_map_get_ip_Inr [OF ips]
  have "\<And>d. d \<in> set (unique_domains_of df0) \<Longrightarrow> dns d \<noteq> Raises Other_exception"
    by simp
  with n have "parallelize_domain_ip dns n df0 = Inr (parallelize_domain_ip2 dns df0)"
    by (rule parallelize_domain_ip_caught)
  with assms show ?thesis by simp
qed

section \<open>Claims about the extraction\<close>

text \<open>
  C3. For a URL of the form \<open>http(s)://[www.]host/...\<close> the extraction returns the host:
  the scheme and an optional \<open>www.\<close> prefix are stripped, and the host is everything up
  to the first \<open>/\<close> after the authority starts, kept as it is, a port included. The
  first conjunct is the form with \<open>www.\<close>, the second the form without it, and the
  third gives both at once through \<open>strip_www\<close>.
\<close>

theorem extract_domain_url_form:
  assumes "scheme = ''http'' \<or> scheme = ''https''" and "host \<noteq> []" and "CHR ''/'' \<notin> set host"
  shows "extract_domain (scheme @ ''://www.'' @ host @ ''/'' @ rest) = host
       \<and> (\<not> prefix ''www.'' host \<longrightarrow> extract_domain (scheme @ ''://'' @ host @ ''/'' @ rest) = host)
       \<and> extract_domain (scheme @ ''://'' @ host @ ''/'' @ rest) = strip_www host"
proof -
  have plain: "extract_domain (scheme @ ''://'' @ host @ ''/'' @ rest) = strip_www host"
    using assms by (rule extract_domain_scheme)
  have "''www.'' @ host \<noteq> []" and "CHR ''/'' \<notin> set (''www.'' @ host)"
    using assms(3) by simp_all
  with assms(1)
  have "extract_domain (scheme @ ''://'' @ (''www.'' @ host) @ ''/'' @ rest) = strip_www (''www.'' @ host)"
    by (rule extract_domain_scheme)
  then have www: "extract_domain (scheme @ ''://www.'' @ host @ ''/'' @ rest) = host"
    using assms(2) by (simp add: strip_www_prefixed del: append.simps) simp
  from plain www show ?thesis
    by (simp add: strip_www_plain)
qed

theorem extract_domain_url_form_witness:
  "extract_domain ''https://www.example.com/path?q=1'' = ''example.com''
   \<and> extract_domain ''http://example.org:8080/x'' = ''example.org:8080''
   \<and> \<not> prefix ''www.'' ''example.org:8080''
   \<and> CHR ''/'' \<notin> set ''example.com'' \<and> CHR ''/'' \<notin> set ''example.org:8080''"
proof -
  have s1: "''https'' = ''http'' \<or> ''https'' = ''https''" and s2: "''http'' = ''http'' \<or> ''http'' = ''https''"
    by simp_all
  have h1: "''example.com'' \<noteq> []" and h2: "''example.org:8080'' \<noteq> []"
    by simp_all
  have n1: "CHR ''/'' \<notin> set ''example.com''" and n2: "CHR ''/'' \<notin> set ''example.org:8080''"
    by simp_all
  have p2: "\<not> prefix ''www.'' ''example.org:8080''"
    by simp
  from extract_domain_url_form [OF s1 h1 n1, of "''path?q=1''"]
  have "extract_domain ''https://www.example.com/path?q=1'' = ''example.com''"
    by simp
  moreover from extract_domain_url_form [OF s2 h2 n2, of "''x''"] p2
  have "extract_domain ''http://example.org:8080/x'' = ''example.org:8080''"
    by simp
  ultimately show ?thesis
    using p2 n1 n2 by blast
qed

text \<open>
  C8. The extraction is a total function of the string: the search either finds a match
  and the result is its group, or it finds none and the result is the marker \<open>NA\<close>;
  there is no third outcome and no error. A string with no occurrence of the pattern
  (malformed URL, missing scheme, empty string) gives \<open>NA\<close>.
\<close>

theorem extract_domain_total:
  "(\<not> pattern_occurs url \<longrightarrow> re_search url = None \<and> extract_domain url = ''NA'')
   \<and> (pattern_occurs url \<longrightarrow> (\<exists>g. re_search url = Some g \<and> extract_domain url = g))"
proof (cases "re_search url")
  case None
  then have "\<not> pattern_occurs url"
    by (simp add: re_search_None_occurs)
  with None show ?thesis
    by (simp add: extract_domain_def)
next
  case (Some g)
  then have "pattern_occurs url"
    using re_search_None_occurs [of url] by simp
  with Some show ?thesis
    by (simp add: extract_domain_def)
qed

theorem extract_domain_total_witness:
  "\<not> pattern_occurs [] \<and> extract_domain [] = ''NA''
   \<and> \<not> pattern_occurs ''not a url'' \<and> extract_domain ''not a url'' = ''NA''
   \<and> \<not> pattern_occurs ''www.example.com/path'' \<and> extract_domain ''www.example.com/path'' = ''NA''
   \<and> pattern_occurs ''http://b/'' \<and> re_search ''http://b/'' = Some ''b'' \<and> extract_domain ''http://b/'' = ''b''"
proof -
  have a: "\<not> pattern_occurs []" and b: "\<not> pattern_occurs ''not a url''"
    and c: "\<not> pattern_occurs ''www.example.com/path''" and d: "pattern_occurs ''http://b/''"
    by code_simp+
  have e: "re_search ''http://b/'' = Some ''b''"
    by code_simp
  from extract_domain_total [of "[]"] a have "extract_domain [] = ''NA''"
    by blast
  moreover from extract_domain_total [of "''not a url''"] b have "extract_domain ''not a url'' = ''NA''"
    by blast
  moreover from extract_domain_total [of "''www.example.com/path''"] c
  have "extract_domain ''www.example.com/path'' = ''NA''"
    by blast
  moreover from extract_domain_total [of "''http://b/''"] d e have "extract_domain ''http://b/'' = ''b''"
    by auto
  ultimately show ?thesis
    using a b c d e by blast
qed

text \<open>
  C10, as the claim states it, fails: \<open>NA\<close> is also returned when an occurrence exists
  and its host is the text \<open>NA\<close>.
\<close>

theorem extract_domain_NA_host_counterexample:
  "pattern_occurs ''http://NA'' \<and> extract_domain ''http://NA'' = ''NA''"
  by code_simp

text \<open>
  C10, amended. The pattern is searched anywhere in the string: when an occurrence of
  \<open>http(s)://\<close> followed by a character other than \<open>/\<close> exists, the result is the host
  of the first one, whatever text comes before it; the branch that returns the marker is
  taken only when no occurrence exists; so the result is \<open>NA\<close> only when no occurrence
  exists or the host of the first one is itself the text \<open>NA\<close>.
\<close>

theorem extract_domain_first_occurrence:
  "(first_occurrence url i \<longrightarrow> extract_domain url = host_at url i)
   \<and> (pattern_occurs url \<longrightarrow> (\<exists>k. first_occurrence url k))
   \<and> (re_search url = None \<longleftrightarrow> \<not> pattern_occurs url)
   \<and> (extract_domain url = ''NA'' \<longrightarrow>
        \<not> pattern_occurs url \<or> (\<exists>k. first_occurrence url k \<and> host_at url k = ''NA''))"
proof -
  have "\<exists>k. first_occurrence url k \<and> host_at url k = ''NA''"
    if "extract_domain url = ''NA''" and "pattern_occurs url"
  proof -
    from that(2) obtain k where k: "first_occurrence url k"
      using first_occurrence_exists by blast
    then have "host_at url k = extract_domain url"
      by (simp add: extract_domain_first)
    with that(1) k show ?thesis by auto
  qed
  then show ?thesis
    using extract_domain_first [of url i] first_occurrence_exists [of url]
      re_search_None_occurs [of url] by blast
qed

theorem extract_domain_first_occurrence_witness:
  "first_occurrence ''xx https://www.example.com/path?q=1'' 3
   \<and> host_at ''xx https://www.example.com/path?q=1'' 3 = ''example.com''
   \<and> extract_domain ''xx https://www.example.com/path?q=1'' = ''example.com''
   \<and> pattern_occurs ''xx https://www.example.com/path?q=1''
   \<and> re_search ''xx https://www.example.com/path?q=1'' \<noteq> None
   \<and> extract_domain ''http://NA'' = ''NA'' \<and> first_occurrence ''http://NA'' 0
   \<and> host_at ''http://NA'' 0 = ''NA''"
proof -
  have f: "first_occurrence ''xx https://www.example.com/path?q=1'' 3"
    and h: "host_at ''xx https://www.example.com/path?q=1'' 3 = ''example.com''"
    and p: "pattern_occurs ''xx https://www.example.com/path?q=1''"
    and f0: "first_occurrence ''http://NA'' 0" and h0: "host_at ''http://NA'' 0 = ''NA''"
    by code_simp+
  from extract_domain_first_occurrence [of "''xx https://www.example.com/path?q=1''" 3] f h p
  have "extract_domain ''xx https://www.example.com/path?q=1'' = ''example.com''"
    and "re_search ''xx https://www.example.com/path?q=1'' \<noteq> None"
    by simp_all
  moreover from extract_domain_first_occurrence [of "''http://NA''" 0] f0 h0
  have "extract_domain ''http://NA'' = ''NA''"
    by simp
  ultimately show ?thesis
    using f h p f0 h0 by blast
qed

section \<open>Claims about the enrichment\<close>

lemma domain_with_ip: "domain (with_ip r v) = domain r"
  by (simp add: with_ip_def)

lemma ipaddress_with_ip: "ipaddress (with_ip r v) = v"
  by (simp add: with_ip_def)

lemma domain_drop_na_row: "r \<in> set (drop_na df) \<Longrightarrow> domain r \<noteq> ''NA''"
  by (simp add: drop_na_def)

lemma domain_parallelize_domain_ip2:
  "e \<in> set (parallelize_domain_ip2 dns df0) \<Longrightarrow> domain e \<noteq> ''NA''"
  by (auto simp: parallelize_domain_ip2_rows domain_with_ip domain_drop_na_row)

lemma original_columns_parallelize_domain_ip2:
  "map original_columns (parallelize_domain_ip2 dns df0) = filter has_domain df0"
  by (simp add: parallelize_domain_ip2_rows comp_def original_columns_frame)

lemma length_parallelize_domain_ip2:
  "length (parallelize_domain_ip2 dns df0) = length (filter has_domain df0)"
  using original_columns_parallelize_domain_ip2 [of dns df0] by (metis length_map)

lemma ip_for_present: "distinct (map fst right) \<Longrightarrow> (k, v) \<in> set right \<Longrightarrow> ip_for right k = v"
  by (simp add: ip_for_def)

lemma ip_for_absent: "k \<notin> fst ` set right \<Longrightarrow> ip_for right k = ''NA''"
  by (simp add: ip_for_def map_of_eq_None_iff [THEN iffD2])

lemma ip_for_permuted:
  assumes "distinct (map fst right)" and "distinct (map fst right')" and "set right' = set right"
  shows "ip_for right' = ip_for right"
proof -
  have "map_of right' = map_of right"
    using map_of_inject_set [OF assms(2) assms(1)] assms(3) by (rule iffD2)
  then show ?thesis
    by (simp add: ip_for_def fun_eq_iff)
qed

text \<open>
  C1, as the claim states it, fails: in the scenario of the specification (three rows,
  the second with a URL that has no domain) both variants return two rows. The row
  whose domain is \<open>NA\<close> is not kept.
\<close>

theorem row_count_counterexample:
  "length scenario_rows = 3
   \<and> length (parallelize_domain_ip2 a_test_dns scenario_rows) = 2
   \<and> parallelize_domain_ip2 a_test_dns scenario_rows =
       [\<lparr>other_columns = (), infringing_urls = ''https://a.test/1'',
          domain = ''a.test'', ipaddress = ''1.2.3.4''\<rparr>,
        \<lparr>other_columns = (), infringing_urls = ''https://a.test/2'',
          domain = ''a.test'', ipaddress = ''1.2.3.4''\<rparr>]
   \<and> parallelize_domain_ip a_test_dns default_num_workers scenario_rows =
       Inr [\<lparr>other_columns = (), infringing_urls = ''https://a.test/1'',
              domain = ''a.test'', ipaddress = ''1.2.3.4''\<rparr>,
            \<lparr>other_columns = (), infringing_urls = ''https://a.test/2'',
              domain = ''a.test'', ipaddress = ''1.2.3.4''\<rparr>]"
  by code_simp

text \<open>
  C1, amended. The enrichment returns exactly one row for every input row whose
  extracted domain is not \<open>NA\<close>, so never more rows than it was given; the rows whose
  domain is \<open>NA\<close> are left out of the resolution and of the output. For the thread-pool
  variant this holds of the frame it returns, and it returns one when \<open>num_workers\<close> is
  positive and no lookup raises what \<open>get_ip\<close> does not catch.
\<close>

theorem row_count_without_NA:
  "length (parallelize_domain_ip2 dns df0) = length (filter has_domain df0)
   \<and> length (parallelize_domain_ip2 dns df0) \<le> length df0
   \<and> (\<forall>e\<in>set (parallelize_domain_ip2 dns df0). domain e \<noteq> ''NA'')
   \<and> (parallelize_domain_ip dns n df0 = Inr out \<longrightarrow>
        length out = length (filter has_domain df0) \<and> (\<forall>e\<in>set out. domain e \<noteq> ''NA''))
   \<and> (0 < n \<and> (\<forall>d\<in>set (unique_domains_of df0). dns d \<noteq> Raises Other_exception) \<longrightarrow>
        (\<exists>out'. parallelize_domain_ip dns n df0 = Inr out'))"
proof -
  have len: "length (parallelize_domain_ip2 dns df0) = length (filter has_domain df0)"
    by (rule length_parallelize_domain_ip2)
  then have le: "length (parallelize_domain_ip2 dns df0) \<le> length df0"
    by simp
  have na: "\<forall>e\<in>set (parallelize_domain_ip2 dns df0). domain e \<noteq> ''NA''"
    using domain_parallelize_domain_ip2 by blast
  have thread: "length out = length (filter has_domain df0) \<and> (\<forall>e\<in>set out. domain e \<noteq> ''NA'')"
    if "parallelize_domain_ip dns n df0 = Inr out"
    using parallelize_domain_ip_Inr [OF that] len na by simp
  have returns: "\<exists>out'. parallelize_domain_ip dns n df0 = Inr out'"
    if "0 < n" and "\<forall>d\<in>set (unique_domains_of df0). dns d \<noteq> Raises Other_exception"
    using parallelize_domain_ip_caught [of n df0 dns] that by blast
  from len le na thread returns show ?thesis
    by blast
qed

theorem row_count_without_NA_witness:
  "length (parallelize_domain_ip2 a_test_dns scenario_rows) = 2
   \<and> length (filter has_domain scenario_rows) = 2
   \<and> 0 < default_num_workers
   \<and> list_all (\<lambda>d. a_test_dns d \<noteq> Raises Other_exception) (unique_domains_of scenario_rows)
   \<and> parallelize_domain_ip a_test_dns default_num_workers scenario_rows =
       Inr (parallelize_domain_ip2 a_test_dns scenario_rows)"
proof -
  have f: "length (filter has_domain scenario_rows) = 2"
    and n: "0 < default_num_workers"
    and c: "list_all (\<lambda>d. a_test_dns d \<noteq> Raises Other_exception) (unique_domains_of scenario_rows)"
    and t: "parallelize_domain_ip a_test_dns default_num_workers scenario_rows =
       Inr (parallelize_domain_ip2 a_test_dns scenario_rows)"
    by code_simp+
  from c have c': "\<forall>d\<in>set (unique_domains_of scenario_rows). a_test_dns d \<noteq> Raises Other_exception"
    by (simp add: list_all_iff)
  note inst = row_count_without_NA [of a_test_dns scenario_rows default_num_workers
      "parallelize_domain_ip2 a_test_dns scenario_rows"]
  from inst f have "length (parallelize_domain_ip2 a_test_dns scenario_rows) = 2"
    by simp
  moreover from inst n c' have "\<exists>out'. parallelize_domain_ip a_test_dns default_num_workers scenario_rows = Inr out'"
    by blast
  ultimately show ?thesis
    using f n c t by blast
qed

text \<open>
  C5. The join is consistent. For any frame and any mapping with one record per key,
  every output row gets the IP of the record whose key is its domain, whatever the row,
  and \<open>NA\<close> when no record has that key (a row whose domain is \<open>NA\<close> included, since
  \<open>NA\<close> is never a key). Both variants join their frame with such a mapping. The rows
  whose domain is \<open>NA\<close> do not reach the join (see C1).
\<close>

theorem join_consistent:
  "(distinct (map fst right) \<longrightarrow>
      join df right = map (\<lambda>r. with_ip r (ip_for right (domain r))) df
      \<and> (\<forall>e\<in>set (join df right).
           (\<forall>v. (domain e, v) \<in> set right \<longrightarrow> ipaddress e = v)
           \<and> (domain e \<notin> fst ` set right \<longrightarrow> ipaddress e = ''NA'')))
   \<and> parallelize_domain_ip2 dns df0 =
       join (drop_na (apply_extract_domain df0)) (resolve_ips_async dns (unique_domains_of df0))
   \<and> distinct (map fst (resolve_ips_async dns (unique_domains_of df0)))
   \<and> ''NA'' \<notin> fst ` set (resolve_ips_async dns (unique_domains_of df0))
   \<and> (parallelize_domain_ip dns n df0 = Inr out \<longrightarrow>
        out = join (drop_na (apply_extract_domain df0))
                (resolve_ips_async dns (unique_domains_of df0)))"
proof -
  have general: "join df right = map (\<lambda>r. with_ip r (ip_for right (domain r))) df
      \<and> (\<forall>e\<in>set (join df right).
           (\<forall>v. (domain e, v) \<in> set right \<longrightarrow> ipaddress e = v)
           \<and> (domain e \<notin> fst ` set right \<longrightarrow> ipaddress e = ''NA''))"
    if d: "distinct (map fst right)"
  proof -
    have eq: "join df right = map (\<lambda>r. with_ip r (ip_for right (domain r))) df"
      using d by (rule join_distinct)
    have "(\<forall>v. (domain e, v) \<in> set right \<longrightarrow> ipaddress e = v)
        \<and> (domain e \<notin> fst ` set right \<longrightarrow> ipaddress e = ''NA'')"
      if "e \<in> set (join df right)" for e
    proof -
      from that eq obtain r where e: "e = with_ip r (ip_for right (domain r))"
        by auto
      show ?thesis
        unfolding e domain_with_ip ipaddress_with_ip
        using ip_for_present [OF d] ip_for_absent by blast
    qed
    with eq show ?thesis by blast
  qed
  have keys: "map fst (resolve_ips_async dns (unique_domains_of df0)) = unique_domains_of df0"
    by (rule map_fst_resolve_ips_async)
  have dist: "distinct (map fst (resolve_ips_async dns (unique_domains_of df0)))"
    by (simp add: keys distinct_unique_domains_of)
  have "''NA'' \<notin> set (map fst (resolve_ips_async dns (unique_domains_of df0)))"
    unfolding keys by (simp add: set_unique_domains_of)
  then have na: "''NA'' \<notin> fst ` set (resolve_ips_async dns (unique_domains_of df0))"
    by simp
  have thread: "out = join (drop_na (apply_extract_domain df0))
      (resolve_ips_async dns (unique_domains_of df0))"
    if "parallelize_domain_ip dns n df0 = Inr out"
    using parallelize_domain_ip_Inr [OF that] by (simp add: parallelize_domain_ip2_join)
  from general dist na thread parallelize_domain_ip2_join [of dns df0] show ?thesis
    by blast
qed

theorem join_consistent_witness:
  "distinct (map fst [(''a.test'', ''1.2.3.4''), (''b.test'', ''5.6.7.8'')])
   \<and> join (apply_extract_domain scenario_rows) [(''a.test'', ''1.2.3.4''), (''b.test'', ''5.6.7.8'')] =
       [\<lparr>other_columns = (), infringing_urls = ''https://a.test/1'',
          domain = ''a.test'', ipaddress = ''1.2.3.4''\<rparr>,
        \<lparr>other_columns = (), infringing_urls = ''bad'',
          domain = ''NA'', ipaddress = ''NA''\<rparr>,
        \<lparr>other_columns = (), infringing_urls = ''https://a.test/2'',
          domain = ''a.test'', ipaddress = ''1.2.3.4''\<rparr>]
   \<and> parallelize_domain_ip a_test_dns default_num_workers scenario_rows =
       Inr (join (drop_na (apply_extract_domain scenario_rows))
              (resolve_ips_async a_test_dns (unique_domains_of scenario_rows)))"
proof -
  let ?right = "[(''a.test'', ''1.2.3.4''), (''b.test'', ''5.6.7.8'')]"
  let ?df = "apply_extract_domain scenario_rows"
  let ?out = "parallelize_domain_ip2 a_test_dns scenario_rows"
  have d: "distinct (map fst ?right)"
    by simp
  have t: "parallelize_domain_ip a_test_dns default_num_workers scenario_rows = Inr ?out"
    by code_simp
  note inst = join_consistent [of ?right ?df a_test_dns scenario_rows default_num_workers ?out]
  from inst d have "join ?df ?right = map (\<lambda>r. with_ip r (ip_for ?right (domain r))) ?df"
    by blast
  also have "\<dots> =
       [\<lparr>other_columns = (), infringing_urls = ''https://a.test/1'',
          domain = ''a.test'', ipaddress = ''1.2.3.4''\<rparr>,
        \<lparr>other_columns = (), infringing_urls = ''bad'',
          domain = ''NA'', ipaddress = ''NA''\<rparr>,
        \<lparr>other_columns = (), infringing_urls = ''https://a.test/2'',
          domain = ''a.test'', ipaddress = ''1.2.3.4''\<rparr>]"
    by code_simp
  finally have j: "join ?df ?right =
       [\<lparr>other_columns = (), infringing_urls = ''https://a.test/1'',
          domain = ''a.test'', ipaddress = ''1.2.3.4''\<rparr>,
        \<lparr>other_columns = (), infringing_urls = ''bad'',
          domain = ''NA'', ipaddress = ''NA''\<rparr>,
        \<lparr>other_columns = (), infringing_urls = ''https://a.test/2'',
          domain = ''a.test'', ipaddress = ''1.2.3.4''\<rparr>]" .
  from inst t have "?out = join (drop_na ?df) (resolve_ips_async a_test_dns (unique_domains_of scenario_rows))"
    by blast
  with t d j show ?thesis
    by simp
qed





text \<open>
  C7. The output rows are input rows in the order of the input: restricted to the
  columns of the input, the output is the list of the input rows that have a domain, in
  the same order (a subsequence of the input; see C1 for the rows left out). The join
  looks each row's domain up in the mapping, so the order in which the records of the
  mapping stand, or were completed, does not change the result.
\<close>

theorem row_order_preserved:
  "map original_columns (parallelize_domain_ip2 dns df0) = filter has_domain df0
   \<and> subseq (map original_columns (parallelize_domain_ip2 dns df0)) df0
   \<and> (parallelize_domain_ip dns n df0 = Inr out \<longrightarrow>
        map original_columns out = filter has_domain df0 \<and> subseq (map original_columns out) df0)
   \<and> (distinct (map fst right) \<and> distinct (map fst right') \<and> set right' = set right \<longrightarrow>
        join df right' = join df right)"
proof -
  have a: "map original_columns (parallelize_domain_ip2 dns df0) = filter has_domain df0"
    by (rule original_columns_parallelize_domain_ip2)
  then have b: "subseq (map original_columns (parallelize_domain_ip2 dns df0)) df0"
    by simp
  have c: "map original_columns out = filter has_domain df0 \<and> subseq (map original_columns out) df0"
    if "parallelize_domain_ip dns n df0 = Inr out"
    using parallelize_domain_ip_Inr [OF that] a b by simp
  have d: "join df right' = join df right"
    if "distinct (map fst right)" and "distinct (map fst right')" and "set right' = set right"
    using that by (simp add: join_distinct ip_for_permuted [of right right'])
  from a b c d show ?thesis
    by blast
qed

theorem row_order_preserved_witness:
  "map original_columns (parallelize_domain_ip2 a_test_dns scenario_rows) =
     [\<lparr>other_columns = (), infringing_urls = ''https://a.test/1''\<rparr>,
      \<lparr>other_columns = (), infringing_urls = ''https://a.test/2''\<rparr>]
   \<and> parallelize_domain_ip a_test_dns default_num_workers scenario_rows =
       Inr (parallelize_domain_ip2 a_test_dns scenario_rows)
   \<and> distinct (map fst [(''b.test'', ''5.6.7.8''), (''a.test'', ''1.2.3.4'')])
   \<and> join (apply_extract_domain scenario_rows) [(''b.test'', ''5.6.7.8''), (''a.test'', ''1.2.3.4'')] =
       join (apply_extract_domain scenario_rows) [(''a.test'', ''1.2.3.4''), (''b.test'', ''5.6.7.8'')]"
proof -
  let ?right = "[(''a.test'', ''1.2.3.4''), (''b.test'', ''5.6.7.8'')]"
  let ?right' = "[(''b.test'', ''5.6.7.8''), (''a.test'', ''1.2.3.4'')]"
  let ?out = "parallelize_domain_ip2 a_test_dns scenario_rows"
  have f: "filter has_domain scenario_rows =
     [\<lparr>other_columns = (), infringing_urls = ''https://a.test/1''\<rparr>,
      \<lparr>other_columns = (), infringing_urls = ''https://a.test/2''\<rparr>]"
    and t: "parallelize_domain_ip a_test_dns default_num_workers scenario_rows = Inr ?out"
    by code_simp+
  have d: "distinct (map fst ?right)" and d': "distinct (map fst ?right')"
    and s: "set ?right' = set ?right"
    by auto
  note inst = row_order_preserved [of a_test_dns scenario_rows default_num_workers ?out
      ?right ?right' "apply_extract_domain scenario_rows"]
  from inst f have "map original_columns ?out =
     [\<lparr>other_columns = (), infringing_urls = ''https://a.test/1''\<rparr>,
      \<lparr>other_columns = (), infringing_urls = ''https://a.test/2''\<rparr>]"
    by simp
  moreover from inst d d' s
  have "join (apply_extract_domain scenario_rows) ?right' = join (apply_extract_domain scenario_rows) ?right"
    by blast
  ultimately show ?thesis
    using t d' by blast
qed

section \<open>Lookup failures\<close>

lemma get_ip_async_failure: "dns d = Raises e \<Longrightarrow> get_ip_async dns d = ''NA''"
  by (simp add: get_ip_async_def)

lemma get_ip_failure_caught:
  "dns d = Raises Gaierror \<or> dns d = Raises Socket_timeout \<Longrightarrow> get_ip dns d = Inr ''NA''"
  by (auto simp: get_ip_def)

lemma resolve_ips_async_all_fail:
  assumes "\<And>d. d \<in> set ds \<Longrightarrow> \<exists>e. dns d = Raises e"
  shows "map fst (resolve_ips_async dns ds) = ds
       \<and> map snd (resolve_ips_async dns ds) = replicate (length ds) ''NA''"
proof -
  have "get_ip_async dns d = ''NA''" if "d \<in> set ds" for d
    using assms [OF that] get_ip_async_failure by blast
  then have "map (get_ip_async dns) ds = replicate (length ds) ''NA''"
    by (simp add: map_replicate_const [symmetric])
  then show ?thesis
    by (simp add: resolve_ips_async_def)
qed

lemma executor_map_get_ip_all_fail_caught:
  assumes "\<And>d. d \<in> set ds \<Longrightarrow> dns d = Raises Gaierror \<or> dns d = Raises Socket_timeout"
  shows "executor_map_get_ip dns ds = Inr (replicate (length ds) ''NA'')"
  using assms by (induction ds) (simp_all add: get_ip_failure_caught)

text \<open>
  C2 holds of the async-resolver variant (\<open>resolve_ips_async_all_fail\<close>) and, in the
  thread-pool variant, of the two exception classes \<open>get_ip\<close> names
  (\<open>executor_map_get_ip_all_fail_caught\<close>). A lookup that fails with any other
  exception is not mapped to \<open>NA\<close> there: for the row \<^verbatim>\<open>http://a..b/x\<close> the domain is
  \<^verbatim>\<open>a..b\<close>, the idna codec refuses it, \<open>get_ip\<close> lets the exception through and the
  whole batch stops, where \<open>get_ip_async\<close> answers \<open>NA\<close>.
\<close>

theorem get_ip_lets_exception_through:
  "extract_domain ''http://a..b/x'' = ''a..b''
   \<and> idna_dns ''a..b'' = Raises Other_exception
   \<and> get_ip idna_dns ''a..b'' = Inl Other_exception
   \<and> executor_map_get_ip idna_dns [''a..b''] = Inl Other_exception
   \<and> get_ip_async idna_dns ''a..b'' = ''NA''
   \<and> resolve_ips_async idna_dns [''a..b''] = [(''a..b'', ''NA'')]"
  by code_simp

text \<open>
  C4. The two variants return the same frame whenever the thread-pool variant returns one
  (\<open>parallelize_domain_ip_Inr\<close>), and it returns one when \<open>num_workers\<close> is positive and
  every lookup answers or fails with an exception \<open>get_ip\<close> catches
  (\<open>parallelize_domain_ip_caught\<close>). They differ on the input of C2: under the same
  lookup outcomes the thread-pool variant raises and the async-resolver variant returns
  the row with \<open>NA\<close>.
\<close>

theorem variants_differ_on_uncaught_exception:
  "parallelize_domain_ip idna_dns default_num_workers idna_rows = Inl (Lookup_raised Other_exception)
   \<and> parallelize_domain_ip2 idna_dns idna_rows =
       [\<lparr>other_columns = (), infringing_urls = ''http://a..b/x'',
          domain = ''a..b'', ipaddress = ''NA''\<rparr>]"
  by code_simp

end
